theory Spec2Isabelle
  imports Main "HOL-Library.Word"
begin

section \<open>The RandomNumberRaffle contract\<close>

text \<open>
  A shallow embedding of the Solidity contract \<^verbatim>\<open>RandomNumberRaffle\<close> (Solidity 0.8.28).

  \<^item> An \<^verbatim>\<open>address\<close> is a 160-bit word; \<^verbatim>\<open>address(0)\<close> is \<open>0\<close>.
  \<^item> A \<^verbatim>\<open>uint256\<close> is a natural number. Arithmetic is checked in Solidity 0.8, so nothing
    wraps: the one subtraction of the contract is modelled with its underflow panic, the one
    modulo with its division-by-zero panic, and every increment is of a counter bounded by
    the length of a storage array or by \<^verbatim>\<open>MAX_NUMBER + 1\<close>.
  \<^item> A Solidity mapping is a total function whose default is the zero value of its range.
  \<^item> A \<^verbatim>\<open>require\<close> that fails is \<open>Inl (Revert msg)\<close>, a failed run-time check of the
    compiler is \<open>Inl (Panic code)\<close>; a call that succeeds returns its return value, the
    event it emits and the new storage.
  \<^item> \<^verbatim>\<open>keccak256(abi.encodePacked(...))\<close> is a builtin of the platform; it is a parameter
    \<open>K\<close> of the model, applied to the list of the packed values.
\<close>

type_synonym address = "160 word"
type_synonym uint256 = nat

record Participant =
  name :: string
  number :: uint256
  exists :: bool

text \<open>The fields \<^verbatim>\<open>name\<close> and \<^verbatim>\<open>number\<close> of \<^verbatim>\<open>WinnerInfo\<close> are \<open>winnerName\<close> and
  \<open>winnerNumber\<close> here, since \<^verbatim>\<open>Participant\<close> has fields of the same names.\<close>

record WinnerInfo =
  winnerAddress :: address
  winnerName :: string
  winnerNumber :: uint256

record state =
  admin :: address
  participants :: "address \<Rightarrow> Participant"
  assignedNumbers :: "uint256 list"
  participantAddresses :: "address list"
  winnerAddresses :: "address list"
  winners :: "WinnerInfo list"
  numberAssigned :: "uint256 \<Rightarrow> bool"

definition MAX_NUMBER :: uint256 where
  "MAX_NUMBER = 100"

datatype event =
  ParticipantEntered address string uint256
| WinnerDrawn address string uint256
| LotteryReset uint256

datatype error = Revert string | Panic nat

text \<open>The error names of the specification are the \<^verbatim>\<open>require\<close> messages of the contract.\<close>

abbreviation Unauthorized :: error where
  "Unauthorized \<equiv> Revert ''Only admin can call this function''"

abbreviation AlreadyRegistered :: error where
  "AlreadyRegistered \<equiv> Revert ''You have already entered the raffle''"

abbreviation PoolExhausted :: error where
  "PoolExhausted \<equiv> Revert ''All numbers have been assigned''"

abbreviation NoEligibleParticipants :: error where
  "NoEligibleParticipants \<equiv> Revert ''No eligible participants left''"

abbreviation IndexOutOfBounds :: error where
  "IndexOutOfBounds \<equiv> Revert ''Index out of bounds''"

abbreviation NoWinnersYet :: error where
  "NoWinnersYet \<equiv> Revert ''No winners yet''"

text \<open>The transaction context a call reads.\<close>

record env =
  msg_sender :: address
  block_timestamp :: uint256
  block_prevrandao :: uint256

datatype packed = U256 uint256 | Addr address

type_synonym keccak = "packed list \<Rightarrow> uint256"

text \<open>The zero value of a \<^verbatim>\<open>Participant\<close>: what a mapping holds at a key never written, and
  what \<^verbatim>\<open>delete\<close> leaves.\<close>

definition zeroParticipant :: Participant where
  "zeroParticipant = \<lparr>name = [], number = 0, exists = False\<rparr>"

text \<open>Storage after deployment: every array empty, every mapping at its default, and the
  deployer as admin.\<close>

definition constructor :: "address \<Rightarrow> state" where
  "constructor sender =
     \<lparr>admin = sender,
      participants = (\<lambda>_. zeroParticipant),
      assignedNumbers = [],
      participantAddresses = [],
      winnerAddresses = [],
      winners = [],
      numberAssigned = (\<lambda>_. False)\<rparr>"

definition onlyAdmin :: "env \<Rightarrow> state \<Rightarrow> (error + 'a) \<Rightarrow> error + 'a" where
  "onlyAdmin e s body =
     (if msg_sender e = admin s then body else Inl (Revert ''Only admin can call this function''))"

subsection \<open>Number allocation\<close>

text \<open>The loop \<^verbatim>\<open>for (i = 1; i <= MAX_NUMBER; i++)\<close> of \<^verbatim>\<open>_generateUniqueRandomNumber\<close>, over the
  list of the values \<open>i\<close> still to visit. The write \<^verbatim>\<open>availableNumbers[count] = i\<close> is
  bounds-checked (panic 0x32).\<close>

fun populate :: "(uint256 \<Rightarrow> bool) \<Rightarrow> uint256 list \<Rightarrow> uint256 list \<Rightarrow> nat \<Rightarrow> error + uint256 list" where
  "populate na [] availableNumbers count = Inr availableNumbers"
| "populate na (i # rest) availableNumbers count =
     (if \<not> na i then
        (if count < length availableNumbers
         then populate na rest (availableNumbers[count := i]) (count + 1)
         else Inl (Panic 0x32))
      else populate na rest availableNumbers count)"

definition generateUniqueRandomNumber :: "keccak \<Rightarrow> env \<Rightarrow> state \<Rightarrow> error + uint256" where
  "generateUniqueRandomNumber K e s =
     (if MAX_NUMBER < length (assignedNumbers s) then Inl (Panic 0x11)
      else
        (case populate (numberAssigned s) [1 ..< Suc MAX_NUMBER]
                (replicate (MAX_NUMBER - length (assignedNumbers s)) 0) 0 of
           Inl err \<Rightarrow> Inl err
         | Inr availableNumbers \<Rightarrow>
             (if length availableNumbers = 0 then Inl (Panic 0x12)
              else
                (let randomIndex =
                       K [U256 (block_timestamp e), U256 (block_prevrandao e),
                          Addr (msg_sender e), U256 (length (assignedNumbers s))]
                       mod length availableNumbers
                 in Inr (availableNumbers ! randomIndex)))))"

definition enterRaffle :: "keccak \<Rightarrow> env \<Rightarrow> string \<Rightarrow> state \<Rightarrow> error + (event \<times> state)" where
  "enterRaffle K e nm s =
     (if exists (participants s (msg_sender e))
      then Inl (Revert ''You have already entered the raffle'')
      else if \<not> length (assignedNumbers s) < MAX_NUMBER
      then Inl (Revert ''All numbers have been assigned'')
      else
        (case generateUniqueRandomNumber K e s of
           Inl err \<Rightarrow> Inl err
         | Inr randomNumber \<Rightarrow>
             Inr (ParticipantEntered (msg_sender e) nm randomNumber,
                  s\<lparr>participants := (participants s)
                       (msg_sender e := \<lparr>name = nm, number = randomNumber, exists = True\<rparr>),
                    numberAssigned := (numberAssigned s)(randomNumber := True),
                    assignedNumbers := assignedNumbers s @ [randomNumber],
                    participantAddresses := participantAddresses s @ [msg_sender e]\<rparr>)))"

subsection \<open>Drawing\<close>

text \<open>The inner loop over \<^verbatim>\<open>winnerAddresses\<close>, which sets \<^verbatim>\<open>isCurrentWinner\<close> and breaks at the
  first match.\<close>

fun isCurrentWinner :: "address list \<Rightarrow> address \<Rightarrow> bool" where
  "isCurrentWinner [] participantAddress = False"
| "isCurrentWinner (w # ws) participantAddress =
     (if w = participantAddress then True else isCurrentWinner ws participantAddress)"

text \<open>The first pass: counting the participants that are not winners.\<close>

fun countEligible :: "address list \<Rightarrow> address list \<Rightarrow> nat \<Rightarrow> nat" where
  "countEligible [] ws eligibleCount = eligibleCount"
| "countEligible (p # ps) ws eligibleCount =
     (if \<not> isCurrentWinner ws p then countEligible ps ws (eligibleCount + 1)
      else countEligible ps ws eligibleCount)"

text \<open>The second pass. \<open>Some a\<close> is the \<^verbatim>\<open>break\<close> with \<^verbatim>\<open>winnerAddress = a\<close>; \<open>None\<close> is the loop
  running to its end, which leaves \<^verbatim>\<open>winnerAddress\<close> at its default.\<close>

text \<open>In \<open>drawWinner\<close> the local variable \<^verbatim>\<open>winnerAddress\<close> is \<open>winnerAddr\<close>, the name being that
  of the field of \<^verbatim>\<open>WinnerInfo\<close>; its default is \<^verbatim>\<open>address(0)\<close>.\<close>

fun locate :: "address list \<Rightarrow> address list \<Rightarrow> nat \<Rightarrow> nat \<Rightarrow> address option" where
  "locate [] ws randomIndex currentIndex = None"
| "locate (p # ps) ws randomIndex currentIndex =
     (if \<not> isCurrentWinner ws p then
        (if currentIndex = randomIndex then Some p
         else locate ps ws randomIndex (currentIndex + 1))
      else locate ps ws randomIndex currentIndex)"

definition drawWinner :: "keccak \<Rightarrow> env \<Rightarrow> state \<Rightarrow> error + (WinnerInfo \<times> event \<times> state)" where
  "drawWinner K e s =
     onlyAdmin e s
       (let eligibleCount = countEligible (participantAddresses s) (winnerAddresses s) 0 in
        if \<not> eligibleCount > 0 then Inl (Revert ''No eligible participants left'')
        else
          (let randomIndex =
                 K [U256 (block_timestamp e), U256 (block_prevrandao e), Addr (msg_sender e)]
                 mod eligibleCount;
               winnerAddr =
                 (case locate (participantAddresses s) (winnerAddresses s) randomIndex 0 of
                    None \<Rightarrow> 0
                  | Some a \<Rightarrow> a);
               winner = participants s winnerAddr;
               winnerInfo = \<lparr>winnerAddress = winnerAddr, winnerName = name winner,
                             winnerNumber = number winner\<rparr>
           in Inr (winnerInfo,
                   WinnerDrawn winnerAddr (name winner) (number winner),
                   s\<lparr>winnerAddresses := winnerAddresses s @ [winnerAddr],
                     winners := winners s @ [winnerInfo]\<rparr>)))"

subsection \<open>Reset\<close>

text \<open>The loop of \<^verbatim>\<open>resetLottery\<close> that deletes the record of every listed participant.\<close>

fun clearParticipants :: "address list \<Rightarrow> (address \<Rightarrow> Participant) \<Rightarrow> (address \<Rightarrow> Participant)" where
  "clearParticipants [] ps = ps"
| "clearParticipants (a # as) ps = clearParticipants as (ps(a := zeroParticipant))"

text \<open>The loop of \<^verbatim>\<open>resetLottery\<close> that clears the markers of \<open>1\<close> to \<^verbatim>\<open>MAX_NUMBER\<close>.\<close>

fun clearNumbers :: "uint256 list \<Rightarrow> (uint256 \<Rightarrow> bool) \<Rightarrow> (uint256 \<Rightarrow> bool)" where
  "clearNumbers [] na = na"
| "clearNumbers (i # rest) na = clearNumbers rest (na(i := False))"

definition resetLottery :: "env \<Rightarrow> state \<Rightarrow> error + (event \<times> state)" where
  "resetLottery e s =
     onlyAdmin e s
       (Inr (LotteryReset (block_timestamp e),
             s\<lparr>participants := clearParticipants (participantAddresses s) (participants s),
               participantAddresses := [],
               winnerAddresses := [],
               winners := [],
               assignedNumbers := [],
               numberAssigned := clearNumbers [1 ..< Suc MAX_NUMBER] (numberAssigned s)\<rparr>))"

subsection \<open>Queries\<close>

definition getParticipantCount :: "state \<Rightarrow> uint256" where
  "getParticipantCount s = length (participantAddresses s)"

definition getWinnerCount :: "state \<Rightarrow> uint256" where
  "getWinnerCount s = length (winners s)"

definition getParticipantInfo :: "state \<Rightarrow> address \<Rightarrow> string \<times> uint256 \<times> bool" where
  "getParticipantInfo s a =
     (let participant = participants s a
      in (name participant, number participant, exists participant))"

definition getAllWinners :: "state \<Rightarrow> WinnerInfo list" where
  "getAllWinners s = winners s"

definition getWinnerByIndex :: "state \<Rightarrow> uint256 \<Rightarrow> error + WinnerInfo" where
  "getWinnerByIndex s index =
     (if index < length (winners s) then Inr (winners s ! index)
      else Inl (Revert ''Index out of bounds''))"

definition getLatestWinner :: "state \<Rightarrow> error + WinnerInfo" where
  "getLatestWinner s =
     (if length (winners s) > 0 then Inr (winners s ! (length (winners s) - 1))
      else Inl (Revert ''No winners yet''))"

text \<open>The loop of \<^verbatim>\<open>isWinner\<close> over \<^verbatim>\<open>winnerAddresses\<close>, which returns at the first match.\<close>

fun isWinnerLoop :: "address list \<Rightarrow> address \<Rightarrow> bool" where
  "isWinnerLoop [] a = False"
| "isWinnerLoop (w # ws) a = (if w = a then True else isWinnerLoop ws a)"

definition isWinner :: "state \<Rightarrow> address \<Rightarrow> bool" where
  "isWinner s a = isWinnerLoop (winnerAddresses s) a"

subsection \<open>Transactions\<close>

text \<open>A transaction that reverts leaves the storage as it was.\<close>

datatype call = EnterRaffle string | DrawWinner | ResetLottery

fun transact :: "keccak \<Rightarrow> env \<Rightarrow> call \<Rightarrow> state \<Rightarrow> state" where
  "transact K e (EnterRaffle nm) s =
     (case enterRaffle K e nm s of Inl err \<Rightarrow> s | Inr (ev, s') \<Rightarrow> s')"
| "transact K e DrawWinner s =
     (case drawWinner K e s of Inl err \<Rightarrow> s | Inr (w, ev, s') \<Rightarrow> s')"
| "transact K e ResetLottery s =
     (case resetLottery e s of Inl err \<Rightarrow> s | Inr (ev, s') \<Rightarrow> s')"

fun run :: "keccak \<Rightarrow> (env \<times> call) list \<Rightarrow> state \<Rightarrow> state" where
  "run K [] s = s"
| "run K ((e, c) # cs) s = run K cs (transact K e c s)"

text \<open>The states of the contract: what some sequence of transactions leaves, from the
  storage of a fresh deployment.\<close>

inductive reachable :: "state \<Rightarrow> bool" where
  init: "reachable (constructor deployer)"
| step: "reachable s \<Longrightarrow> reachable (transact K e c s)"

text \<open>The unassigned number pool: the numbers of \<open>1\<close> to \<^verbatim>\<open>MAX_NUMBER\<close> without a marker,
  which is what \<^verbatim>\<open>_generateUniqueRandomNumber\<close> collects.\<close>

definition numberPool :: "state \<Rightarrow> uint256 list" where
  "numberPool s = filter (\<lambda>i. \<not> numberAssigned s i) [1 ..< Suc MAX_NUMBER]"

text \<open>The eligible participants of the specification: the participants in registration
  order, without those in the winner sequence.\<close>

definition eligible :: "state \<Rightarrow> address list" where
  "eligible s = filter (\<lambda>a. a \<notin> set (winnerAddresses s)) (participantAddresses s)"

text \<open>The index \<^verbatim>\<open>randomIndex\<close> of \<^verbatim>\<open>drawWinner\<close>, in terms of the eligible participants.\<close>

definition drawIndex :: "keccak \<Rightarrow> env \<Rightarrow> state \<Rightarrow> nat" where
  "drawIndex K e s =
     K [U256 (block_timestamp e), U256 (block_prevrandao e), Addr (msg_sender e)]
     mod length (eligible s)"

text \<open>What every state of the contract satisfies: the numbers in \<^verbatim>\<open>assignedNumbers\<close> are
  distinct numbers of \<open>1\<close> to \<^verbatim>\<open>MAX_NUMBER\<close> and are the marked ones; the listed participants
  are distinct, are those with a record, and hold the assigned numbers in the order of
  registration; an address never listed holds the zero record; and the winners are distinct
  participants, listed alike in both winner arrays.\<close>

definition raffle_inv :: "state \<Rightarrow> bool" where
  "raffle_inv s \<longleftrightarrow>
     distinct (assignedNumbers s) \<and>
     set (assignedNumbers s) \<subseteq> {1 .. MAX_NUMBER} \<and>
     (\<forall>n. numberAssigned s n \<longleftrightarrow> n \<in> set (assignedNumbers s)) \<and>
     distinct (participantAddresses s) \<and>
     (\<forall>a. exists (participants s a) \<longleftrightarrow> a \<in> set (participantAddresses s)) \<and>
     (\<forall>a. a \<notin> set (participantAddresses s) \<longrightarrow> participants s a = zeroParticipant) \<and>
     map (\<lambda>a. number (participants s a)) (participantAddresses s) = assignedNumbers s \<and>
     distinct (winnerAddresses s) \<and>
     set (winnerAddresses s) \<subseteq> set (participantAddresses s) \<and>
     map winnerAddress (winners s) = winnerAddresses s"

subsection \<open>A concrete run\<close>

text \<open>An operator at address \<open>1000\<close> deploys the contract; the addresses \<open>1\<close> to \<open>n\<close>
  register in turn, each in a transaction of its own. The hash is a constant function here.\<close>

definition demoHash :: keccak where
  "demoHash p = 7"

definition callBy :: "address \<Rightarrow> env" where
  "callBy a = \<lparr>msg_sender = a, block_timestamp = 1700000000, block_prevrandao = 42\<rparr>"

definition entrants :: "nat \<Rightarrow> (env \<times> call) list" where
  "entrants n = map (\<lambda>i. (callBy (of_nat i), EnterRaffle ''guest'')) [1 ..< Suc n]"

definition house :: "nat \<Rightarrow> state" where
  "house n = run demoHash (entrants n) (constructor 1000)"

text \<open>The run with one participant, after the operator has drawn: every participant has won.\<close>

definition drawnOut :: state where
  "drawnOut = transact demoHash (callBy 1000) DrawWinner (house (Suc 0))"

text \<open>The run with three participants, and the state after a draw by the operator: with the
  hash at 7 and three eligible participants the index is 1, the second participant.\<close>

definition secondGuest :: WinnerInfo where
  "secondGuest =
     \<lparr>winnerAddress = 2, winnerName = name (participants (house 3) 2),
      winnerNumber = number (participants (house 3) 2)\<rparr>"

definition afterDraw :: state where
  "afterDraw = (house 3)\<lparr>winnerAddresses := [2], winners := [secondGuest]\<rparr>"

section \<open>The loops, in closed form\<close>

lemma isCurrentWinner_set: "isCurrentWinner ws a \<longleftrightarrow> a \<in> set ws"
  by (induction ws) auto

lemma countEligible_filter:
  "countEligible ps ws n = n + length (filter (\<lambda>a. a \<notin> set ws) ps)"
  by (induction ps arbitrary: n) (simp_all add: isCurrentWinner_set)

lemma locate_filter:
  "c \<le> r \<Longrightarrow> locate ps ws r c =
     (if r - c < length (filter (\<lambda>a. a \<notin> set ws) ps)
      then Some (filter (\<lambda>a. a \<notin> set ws) ps ! (r - c)) else None)"
proof (induction ps arbitrary: c)
  case Nil
  then show ?case by simp
next
  case (Cons p ps)
  show ?case
  proof (cases "p \<in> set ws")
    case True
    then show ?thesis using Cons by (simp add: isCurrentWinner_set)
  next
    case False
    show ?thesis
    proof (cases "c = r")
      case True
      then show ?thesis using False by (simp add: isCurrentWinner_set)
    next
      case ne: False
      with Cons.prems have lt: "Suc c \<le> r" by simp
      have "r - c = Suc (r - Suc c)" using lt by simp
      then show ?thesis using False ne Cons.IH [OF lt]
        by (simp add: isCurrentWinner_set)
    qed
  qed
qed

lemma populate_filter:
  "count \<le> length arr \<Longrightarrow> populate na is arr count =
     (if count + length (filter (\<lambda>i. \<not> na i) is) \<le> length arr
      then Inr (take count arr @ filter (\<lambda>i. \<not> na i) is
                @ drop (count + length (filter (\<lambda>i. \<not> na i) is)) arr)
      else Inl (Panic 0x32))"
proof (induction "is" arbitrary: arr count)
  case Nil
  then show ?case by simp
next
  case (Cons i rest)
  show ?case
  proof (cases "na i")
    case True
    then show ?thesis using Cons.IH [OF Cons.prems] by simp
  next
    case False
    show ?thesis
    proof (cases "count < length arr")
      case True
      then have "take (Suc count) (arr[count := i]) = take count arr @ [i]"
        by (simp add: take_Suc_conv_app_nth)
      moreover have "Suc count \<le> length (arr[count := i])" using True by simp
      ultimately show ?thesis
        using False True Cons.IH [of "Suc count" "arr[count := i]"] by simp
    next
      case ge: False
      then show ?thesis using False by simp
    qed
  qed
qed

lemma clearParticipants_eq:
  "clearParticipants as ps = (\<lambda>a. if a \<in> set as then zeroParticipant else ps a)"
  by (induction as arbitrary: ps) (auto simp: fun_eq_iff)

lemma clearNumbers_eq:
  "clearNumbers is na = (\<lambda>i. if i \<in> set is then False else na i)"
  by (induction "is" arbitrary: na) (auto simp: fun_eq_iff)

section \<open>The invariant of the storage\<close>

lemma inv_constructor: "raffle_inv (constructor d)"
  by (simp add: raffle_inv_def constructor_def zeroParticipant_def)

lemma pool_set: "set (numberPool s) = {i. 1 \<le> i \<and> i \<le> MAX_NUMBER \<and> \<not> numberAssigned s i}"
  by (auto simp: numberPool_def)

lemma pool_distinct: "distinct (numberPool s)"
  by (simp add: numberPool_def)

lemma pool_length:
  assumes "raffle_inv s"
  shows "length (assignedNumbers s) + length (numberPool s) = MAX_NUMBER"
proof -
  let ?xs = "[1 ..< Suc MAX_NUMBER]"
  let ?P = "\<lambda>i. numberAssigned s i"
  from assms have d: "distinct (assignedNumbers s)"
    and sub: "set (assignedNumbers s) \<subseteq> {1 .. MAX_NUMBER}"
    and na: "\<And>n. numberAssigned s n \<longleftrightarrow> n \<in> set (assignedNumbers s)"
    by (simp_all add: raffle_inv_def)
  have "{i. ?P i} \<inter> set ?xs = set (assignedNumbers s)"
    using sub na by auto
  then have "length (filter ?P ?xs) = card (set (assignedNumbers s))"
    by (simp add: distinct_length_filter)
  then have a: "length (filter ?P ?xs) = length (assignedNumbers s)"
    using d by (simp add: distinct_card)
  have "length (filter ?P ?xs) + length (filter (\<lambda>i. \<not> ?P i) ?xs) = length ?xs"
    by (rule sum_length_filter_compl)
  then show ?thesis using a by (simp add: numberPool_def)
qed

lemma generate_pool:
  assumes "raffle_inv s" and "length (assignedNumbers s) < MAX_NUMBER"
  shows "generateUniqueRandomNumber K e s =
           Inr (numberPool s !
                  (K [U256 (block_timestamp e), U256 (block_prevrandao e),
                      Addr (msg_sender e), U256 (length (assignedNumbers s))]
                   mod length (numberPool s)))"
proof -
  have len: "length (numberPool s) = MAX_NUMBER - length (assignedNumbers s)"
    using pool_length [OF assms(1)] by simp
  have "populate (numberAssigned s) [1 ..< Suc MAX_NUMBER]
          (replicate (MAX_NUMBER - length (assignedNumbers s)) 0) 0 = Inr (numberPool s)"
    using len by (simp add: populate_filter numberPool_def)
  moreover have "length (numberPool s) \<noteq> 0" using len assms(2) by arith
  ultimately show ?thesis using assms(2)
    by (simp add: generateUniqueRandomNumber_def Let_def)
qed

lemma inv_enterRaffle:
  assumes i: "raffle_inv s" and ok: "enterRaffle K e nm s = Inr (ev, s')"
  shows "raffle_inv s'"
proof -
  from ok have ne: "\<not> exists (participants s (msg_sender e))"
    and lt: "length (assignedNumbers s) < MAX_NUMBER"
    by (auto simp: enterRaffle_def split: if_splits)
  define r where "r = numberPool s !
      (K [U256 (block_timestamp e), U256 (block_prevrandao e),
          Addr (msg_sender e), U256 (length (assignedNumbers s))] mod length (numberPool s))"
  have g: "generateUniqueRandomNumber K e s = Inr r"
    unfolding r_def by (rule generate_pool [OF i lt])
  have "0 < length (numberPool s)" using pool_length [OF i] lt by arith
  then have "r \<in> set (numberPool s)" unfolding r_def by simp
  then have r: "1 \<le> r" "r \<le> MAX_NUMBER" "\<not> numberAssigned s r"
    by (simp_all add: pool_set)
  have s': "s' = s\<lparr>participants := (participants s)
                       (msg_sender e := \<lparr>name = nm, number = r, exists = True\<rparr>),
                    numberAssigned := (numberAssigned s)(r := True),
                    assignedNumbers := assignedNumbers s @ [r],
                    participantAddresses := participantAddresses s @ [msg_sender e]\<rparr>"
    using ok ne lt g by (simp add: enterRaffle_def)
  have notin: "msg_sender e \<notin> set (participantAddresses s)"
    using i ne by (simp add: raffle_inv_def)
  have rnotin: "r \<notin> set (assignedNumbers s)"
    using i r(3) by (simp add: raffle_inv_def)
  have m: "map (\<lambda>a. number (if a = msg_sender e then \<lparr>name = nm, number = r, exists = True\<rparr>
                               else participants s a)) (participantAddresses s)
           = map (\<lambda>a. number (participants s a)) (participantAddresses s)"
    using notin by (intro map_cong) auto
  show ?thesis
    using i notin rnotin r(1,2) m unfolding s' raffle_inv_def
    by (auto simp: zeroParticipant_def)
qed

section \<open>Drawing and resetting, in closed form\<close>

lemma countEligible_eligible:
  "countEligible (participantAddresses s) (winnerAddresses s) 0 = length (eligible s)"
  by (simp add: countEligible_filter eligible_def)

lemma locate_eligible:
  "r < length (eligible s) \<Longrightarrow>
     locate (participantAddresses s) (winnerAddresses s) r 0 = Some (eligible s ! r)"
  by (simp add: locate_filter eligible_def)

lemma drawIndex_less: "eligible s \<noteq> [] \<Longrightarrow> drawIndex K e s < length (eligible s)"
  by (simp add: drawIndex_def)

lemma drawWinner_unauthorized:
  "msg_sender e \<noteq> admin s \<Longrightarrow> drawWinner K e s = Inl Unauthorized"
  by (simp add: drawWinner_def onlyAdmin_def)

lemma drawWinner_exhausted:
  "msg_sender e = admin s \<Longrightarrow> eligible s = [] \<Longrightarrow> drawWinner K e s = Inl NoEligibleParticipants"
  by (simp add: drawWinner_def onlyAdmin_def countEligible_eligible)

lemma drawWinner_selects:
  assumes "msg_sender e = admin s" and "eligible s \<noteq> []"
  shows "drawWinner K e s =
     (let a = eligible s ! drawIndex K e s;
          w = \<lparr>winnerAddress = a, winnerName = name (participants s a),
               winnerNumber = number (participants s a)\<rparr>
      in Inr (w, WinnerDrawn a (name (participants s a)) (number (participants s a)),
              s\<lparr>winnerAddresses := winnerAddresses s @ [a], winners := winners s @ [w]\<rparr>))"
proof -
  have "locate (participantAddresses s) (winnerAddresses s) (drawIndex K e s) 0
          = Some (eligible s ! drawIndex K e s)"
    by (rule locate_eligible) (rule drawIndex_less [OF assms(2)])
  then show ?thesis using assms
    by (simp add: drawWinner_def onlyAdmin_def countEligible_eligible Let_def drawIndex_def)
qed

lemma drawWinner_success:
  assumes "drawWinner K e s = Inr (w, ev, s')"
  shows "msg_sender e = admin s" and "eligible s \<noteq> []"
    and "w = \<lparr>winnerAddress = eligible s ! drawIndex K e s,
              winnerName = name (participants s (eligible s ! drawIndex K e s)),
              winnerNumber = number (participants s (eligible s ! drawIndex K e s))\<rparr>"
    and "s' = s\<lparr>winnerAddresses := winnerAddresses s @ [winnerAddress w],
                winners := winners s @ [w]\<rparr>"
proof -
  show a: "msg_sender e = admin s"
    using assms by (rule contrapos_pp) (simp add: drawWinner_unauthorized)
  show n: "eligible s \<noteq> []"
  proof
    assume "eligible s = []"
    then have "drawWinner K e s = Inl NoEligibleParticipants"
      using a by (simp add: drawWinner_exhausted)
    then show False using assms by simp
  qed
  show "w = \<lparr>winnerAddress = eligible s ! drawIndex K e s,
              winnerName = name (participants s (eligible s ! drawIndex K e s)),
              winnerNumber = number (participants s (eligible s ! drawIndex K e s))\<rparr>"
    using assms drawWinner_selects [OF a n, of K] by (simp add: Let_def)
  show "s' = s\<lparr>winnerAddresses := winnerAddresses s @ [winnerAddress w],
                winners := winners s @ [w]\<rparr>"
    using assms drawWinner_selects [OF a n, of K] by (auto simp: Let_def)
qed

lemma eligible_nth:
  "r < length (eligible s) \<Longrightarrow>
     eligible s ! r \<in> set (participantAddresses s) \<and> eligible s ! r \<notin> set (winnerAddresses s)"
  using nth_mem [of r "eligible s"] by (simp add: eligible_def)

lemma inv_drawWinner:
  assumes i: "raffle_inv s" and ok: "drawWinner K e s = Inr (w, ev, s')"
  shows "raffle_inv s'"
proof -
  note d = drawWinner_success [OF ok]
  have "winnerAddress w = eligible s ! drawIndex K e s" using d(3) by simp
  then have "winnerAddress w \<in> set (participantAddresses s)"
    and "winnerAddress w \<notin> set (winnerAddresses s)"
    using eligible_nth [OF drawIndex_less [OF d(2)], of K e] by simp_all
  then show ?thesis using i unfolding d(4) raffle_inv_def by simp
qed

lemma resetLottery_unauthorized:
  "msg_sender e \<noteq> admin s \<Longrightarrow> resetLottery e s = Inl Unauthorized"
  by (simp add: resetLottery_def onlyAdmin_def)

lemma resetLottery_admin:
  "msg_sender e = admin s \<Longrightarrow>
     resetLottery e s =
       Inr (LotteryReset (block_timestamp e),
            s\<lparr>participants := clearParticipants (participantAddresses s) (participants s),
              participantAddresses := [],
              winnerAddresses := [],
              winners := [],
              assignedNumbers := [],
              numberAssigned := clearNumbers [1 ..< Suc MAX_NUMBER] (numberAssigned s)\<rparr>)"
  by (simp add: resetLottery_def onlyAdmin_def)

lemma clear_inv_participants:
  "raffle_inv s \<Longrightarrow> clearParticipants (participantAddresses s) (participants s) = (\<lambda>_. zeroParticipant)"
  by (auto simp: clearParticipants_eq raffle_inv_def fun_eq_iff)

lemma clear_inv_numbers:
  "raffle_inv s \<Longrightarrow> clearNumbers [1 ..< Suc MAX_NUMBER] (numberAssigned s) = (\<lambda>_. False)"
  by (auto simp: clearNumbers_eq raffle_inv_def fun_eq_iff)

lemma resetLottery_inv:
  assumes "raffle_inv s" and "msg_sender e = admin s"
  shows "resetLottery e s = Inr (LotteryReset (block_timestamp e), constructor (admin s))"
  unfolding resetLottery_admin [OF assms(2)] clear_inv_participants [OF assms(1)]
    clear_inv_numbers [OF assms(1)] constructor_def
  by simp

lemma inv_transact: "raffle_inv s \<Longrightarrow> raffle_inv (transact K e c s)"
proof (cases c)
  case (EnterRaffle nm)
  assume "raffle_inv s"
  then show ?thesis using EnterRaffle
    by (auto split: sum.splits dest: inv_enterRaffle)
next
  case DrawWinner
  assume "raffle_inv s"
  then show ?thesis using DrawWinner
    by (auto split: sum.splits dest: inv_drawWinner)
next
  case ResetLottery
  assume i: "raffle_inv s"
  show ?thesis
  proof (cases "msg_sender e = admin s")
    case True
    then show ?thesis using ResetLottery i
      by (simp add: resetLottery_inv inv_constructor)
  next
    case False
    then show ?thesis using ResetLottery i
      by (simp add: resetLottery_unauthorized)
  qed
qed

lemma reachable_inv: "reachable s \<Longrightarrow> raffle_inv s"
  by (induction rule: reachable.induct) (simp_all add: inv_constructor inv_transact)

lemma reachable_run: "reachable s \<Longrightarrow> reachable (run K cs s)"
proof (induction cs arbitrary: s)
  case Nil
  then show ?case by simp
next
  case (Cons c cs)
  obtain e k where c: "c = (e, k)" by (cases c)
  have "reachable (transact K e k s)" using Cons.prems by (rule reachable.step)
  then show ?case using Cons.IH c by simp
qed

section \<open>Registration in closed form, and the concrete run\<close>

lemma inv_lengths:
  "raffle_inv s \<Longrightarrow> length (assignedNumbers s) = length (participantAddresses s)"
  unfolding raffle_inv_def by (metis length_map)

lemma inv_exists:
  "raffle_inv s \<Longrightarrow> exists (participants s a) \<longleftrightarrow> a \<in> set (participantAddresses s)"
  unfolding raffle_inv_def by blast

lemma enterRaffle_succeeds:
  assumes i: "raffle_inv s" and ne: "\<not> exists (participants s (msg_sender e))"
    and lt: "length (assignedNumbers s) < MAX_NUMBER"
  shows "enterRaffle K e nm s =
     (let r = numberPool s !
                (K [U256 (block_timestamp e), U256 (block_prevrandao e),
                    Addr (msg_sender e), U256 (length (assignedNumbers s))]
                 mod length (numberPool s))
      in Inr (ParticipantEntered (msg_sender e) nm r,
              s\<lparr>participants := (participants s)
                   (msg_sender e := \<lparr>name = nm, number = r, exists = True\<rparr>),
                numberAssigned := (numberAssigned s)(r := True),
                assignedNumbers := assignedNumbers s @ [r],
                participantAddresses := participantAddresses s @ [msg_sender e]\<rparr>))"
  using ne lt by (simp add: enterRaffle_def generate_pool [OF i lt] Let_def)

lemma transact_enter:
  assumes i: "raffle_inv s" and ne: "msg_sender e \<notin> set (participantAddresses s)"
    and lt: "length (participantAddresses s) < MAX_NUMBER"
  shows "participantAddresses (transact K e (EnterRaffle nm) s) = participantAddresses s @ [msg_sender e]"
    and "winnerAddresses (transact K e (EnterRaffle nm) s) = winnerAddresses s"
    and "admin (transact K e (EnterRaffle nm) s) = admin s"
proof -
  have ne': "\<not> exists (participants s (msg_sender e))"
    using ne by (simp add: inv_exists [OF i])
  have lt': "length (assignedNumbers s) < MAX_NUMBER"
    using lt inv_lengths [OF i] by simp
  note ok = enterRaffle_succeeds [OF i ne' lt', of K nm]
  show "participantAddresses (transact K e (EnterRaffle nm) s) = participantAddresses s @ [msg_sender e]"
    by (simp add: ok Let_def)
  show "winnerAddresses (transact K e (EnterRaffle nm) s) = winnerAddresses s"
    by (simp add: ok Let_def)
  show "admin (transact K e (EnterRaffle nm) s) = admin s"
    by (simp add: ok Let_def)
qed

lemma transact_draw:
  assumes "msg_sender e = admin s" and "eligible s \<noteq> []"
  shows "transact K e DrawWinner s =
     s\<lparr>winnerAddresses := winnerAddresses s @ [eligible s ! drawIndex K e s],
       winners := winners s @
         [\<lparr>winnerAddress = eligible s ! drawIndex K e s,
           winnerName = name (participants s (eligible s ! drawIndex K e s)),
           winnerNumber = number (participants s (eligible s ! drawIndex K e s))\<rparr>]\<rparr>"
  by (simp add: drawWinner_selects [OF assms] Let_def)

lemma run_append: "run K (xs @ ys) s = run K ys (run K xs s)"
  by (induction xs arbitrary: s) auto

lemma entrants_Suc:
  "entrants (Suc n) = entrants n @ [(callBy (of_nat (Suc n)), EnterRaffle ''guest'')]"
  by (simp add: entrants_def)

lemma house_reachable: "reachable (house n)"
  unfolding house_def by (rule reachable_run) (rule reachable.init)

lemma small_address: "i \<le> 100 \<Longrightarrow> unat (of_nat i :: address) = i"
  by (simp add: unat_of_nat)

lemma house_Suc:
  "house (Suc n) = transact demoHash (callBy (of_nat (Suc n))) (EnterRaffle ''guest'') (house n)"
  by (simp add: house_def entrants_Suc run_append)

lemma house_lists:
  "n \<le> 100 \<Longrightarrow>
     participantAddresses (house n) = map of_nat [1 ..< Suc n] \<and>
     winnerAddresses (house n) = [] \<and> admin (house n) = 1000"
proof (induction n)
  case 0
  then show ?case by (simp add: house_def entrants_def constructor_def)
next
  case (Suc n)
  then have IH: "participantAddresses (house n) = map of_nat [1 ..< Suc n]"
    "winnerAddresses (house n) = []" "admin (house n) = 1000"
    by simp_all
  have i: "raffle_inv (house n)" by (rule reachable_inv [OF house_reachable])
  have fresh: "msg_sender (callBy (of_nat (Suc n))) \<notin> set (participantAddresses (house n))"
  proof
    assume "msg_sender (callBy (of_nat (Suc n))) \<in> set (participantAddresses (house n))"
    then have "(of_nat (Suc n) :: address) \<in> of_nat ` {1 ..< Suc n}"
      unfolding IH callBy_def by (simp only: env.select_convs set_map set_upt)
    then obtain j where j: "j \<in> {1 ..< Suc n}" and eq: "(of_nat (Suc n) :: address) = of_nat j"
      by blast
    from eq have "unat (of_nat (Suc n) :: address) = unat (of_nat j :: address)"
      by (rule arg_cong)
    moreover have "unat (of_nat (Suc n) :: address) = Suc n"
      using Suc.prems by (intro small_address)
    moreover have "unat (of_nat j :: address) = j"
      using j Suc.prems by (intro small_address) simp
    ultimately show False using j by simp
  qed
  have lt: "length (participantAddresses (house n)) < MAX_NUMBER"
    using Suc.prems by (simp add: IH MAX_NUMBER_def)
  show ?case
    unfolding house_Suc
    using transact_enter [OF i fresh lt, of demoHash "''guest''"] IH
    by (simp add: callBy_def del: of_nat_Suc)
qed

section \<open>Facts of the concrete run\<close>

lemma house_member:
  assumes "n \<le> 100"
  shows "a \<in> set (participantAddresses (house n)) \<longleftrightarrow> 1 \<le> unat a \<and> unat a \<le> n"
proof
  assume "a \<in> set (participantAddresses (house n))"
  then have "a \<in> of_nat ` {1 ..< Suc n}"
    using house_lists [OF assms] by (simp only: set_map set_upt)
  then obtain j where j: "j \<in> {1 ..< Suc n}" and a: "a = of_nat j" by blast
  have "unat (of_nat j :: address) = j"
    using j assms by (intro small_address) simp
  then show "1 \<le> unat a \<and> unat a \<le> n" using j a by simp
next
  assume "1 \<le> unat a \<and> unat a \<le> n"
  then have "unat a \<in> {1 ..< Suc n}" by simp
  then have "of_nat (unat a) \<in> (of_nat ` {1 ..< Suc n} :: address set)" by (rule imageI)
  then have "a \<in> of_nat ` {1 ..< Suc n}" by simp
  then show "a \<in> set (participantAddresses (house n))"
    using house_lists [OF assms] by (simp only: set_map set_upt)
qed

lemma house_exists:
  "n \<le> 100 \<Longrightarrow> exists (participants (house n) a) \<longleftrightarrow> 1 \<le> unat a \<and> unat a \<le> n"
  using inv_exists [OF reachable_inv [OF house_reachable], of n a] house_member [of n a] by simp

lemma house_full:
  "length (participantAddresses (house 100)) = 100"
  using house_lists [of 100] by simp

lemma house3: "participantAddresses (house 3) = [1, 2, 3]" "winnerAddresses (house 3) = []"
  "admin (house 3) = 1000" "eligible (house 3) = [1, 2, 3]"
  "drawIndex demoHash (callBy 1000) (house 3) = 1"
proof -
  have u: "[1 ..< Suc 3] = [1, 2, 3]" by (simp add: upt_rec)
  show a: "participantAddresses (house 3) = [1, 2, 3]"
    using house_lists [of 3] unfolding u by simp
  show b: "winnerAddresses (house 3) = []" using house_lists [of 3] by simp
  show "admin (house 3) = 1000" using house_lists [of 3] by simp
  show c: "eligible (house 3) = [1, 2, 3]" by (simp add: eligible_def a b)
  show "drawIndex demoHash (callBy 1000) (house 3) = 1"
    by (simp add: drawIndex_def c demoHash_def)
qed

lemma house1: "participantAddresses (house (Suc 0)) = [1]" "winnerAddresses (house (Suc 0)) = []"
  "admin (house (Suc 0)) = 1000" "eligible (house (Suc 0)) = [1]"
  "drawIndex demoHash (callBy 1000) (house (Suc 0)) = 0"
proof -
  show a: "participantAddresses (house (Suc 0)) = [1]"
    using house_lists [of "Suc 0"] by simp
  show b: "winnerAddresses (house (Suc 0)) = []" using house_lists [of "Suc 0"] by simp
  show "admin (house (Suc 0)) = 1000" using house_lists [of "Suc 0"] by simp
  show c: "eligible (house (Suc 0)) = [1]" by (simp add: eligible_def a b)
  show "drawIndex demoHash (callBy 1000) (house (Suc 0)) = 0"
    by (simp add: drawIndex_def c demoHash_def)
qed

lemma drawnOut_lists:
  "participantAddresses drawnOut = [1]" "winnerAddresses drawnOut = [1]" "admin drawnOut = 1000"
  "reachable drawnOut"
proof -
  have a: "msg_sender (callBy 1000) = admin (house (Suc 0))" by (simp add: house1 callBy_def)
  have e: "eligible (house (Suc 0)) \<noteq> []" by (simp add: house1)
  note t = transact_draw [OF a e, of demoHash]
  show "participantAddresses drawnOut = [1]" unfolding drawnOut_def t by (simp add: house1)
  show "winnerAddresses drawnOut = [1]" unfolding drawnOut_def t by (simp add: house1)
  show "admin drawnOut = 1000" unfolding drawnOut_def t by (simp add: house1)
  show "reachable drawnOut" unfolding drawnOut_def
    by (rule reachable.step) (rule house_reachable)
qed

lemma house3_draw:
  "drawWinner demoHash (callBy 1000) (house 3) =
     Inr (secondGuest,
          WinnerDrawn 2 (name (participants (house 3) 2)) (number (participants (house 3) 2)),
          afterDraw)"
proof -
  have a: "msg_sender (callBy 1000) = admin (house 3)" by (simp add: house3 callBy_def)
  have e: "eligible (house 3) \<noteq> []" by (simp add: house3)
  have w: "map winnerAddress (winners (house 3)) = winnerAddresses (house 3)"
    using reachable_inv [OF house_reachable, of 3] by (simp add: raffle_inv_def)
  then have "winners (house 3) = []" by (simp add: house3)
  then show ?thesis
    unfolding drawWinner_selects [OF a e]
    by (simp add: house3 secondGuest_def afterDraw_def Let_def)
qed

lemma reset_operator:
  "reachable s \<Longrightarrow> msg_sender e = admin s \<Longrightarrow> transact K e ResetLottery s = constructor (admin s)"
  by (simp add: resetLottery_inv reachable_inv)

lemma house3_winners: "winners (house 3) = []"
proof -
  have "map winnerAddress (winners (house 3)) = winnerAddresses (house 3)"
    using reachable_inv [OF house_reachable, of 3] by (simp add: raffle_inv_def)
  then show ?thesis by (simp add: house3)
qed

lemma all_won_no_eligible:
  "set (participantAddresses s) \<subseteq> set (winnerAddresses s) \<longleftrightarrow> eligible s = []"
  by (auto simp: eligible_def filter_empty_conv)

lemma pool_empty_iff:
  assumes "raffle_inv s"
  shows "numberPool s = [] \<longleftrightarrow> length (assignedNumbers s) = MAX_NUMBER"
proof -
  have "length (assignedNumbers s) + length (numberPool s) = MAX_NUMBER"
    by (rule pool_length [OF assms])
  then show ?thesis by (cases "numberPool s") auto
qed

lemma house_full_pool: "numberPool (house 100) = []"
proof -
  have i: "raffle_inv (house 100)" by (rule reachable_inv [OF house_reachable])
  have "length (assignedNumbers (house 100)) = MAX_NUMBER"
    using inv_lengths [OF i] house_full by (simp add: MAX_NUMBER_def)
  then show ?thesis by (simp add: pool_empty_iff [OF i])
qed

section \<open>The claims\<close>

text \<open>
  Claim C1. In every state that a sequence of \<^verbatim>\<open>enterRaffle\<close>, \<^verbatim>\<open>drawWinner\<close> and
  \<^verbatim>\<open>resetLottery\<close> transactions leaves from a fresh deployment, the assigned numbers are
  pairwise distinct, each lies between 1 and 100, they are the numbers held by the
  participant records in registration order, and their count is the count of participant
  records (the identities whose record exists, and also the length of the participant list)
  and is 100 minus the size of the unassigned pool.
\<close>

theorem assigned_numbers_invariant:
  assumes "reachable s"
  shows "distinct (assignedNumbers s) \<and>
         (\<forall>n \<in> set (assignedNumbers s). 1 \<le> n \<and> n \<le> 100) \<and>
         map (\<lambda>a. number (participants s a)) (participantAddresses s) = assignedNumbers s \<and>
         length (assignedNumbers s) = card {a. exists (participants s a)} \<and>
         length (assignedNumbers s) = length (participantAddresses s) \<and>
         length (assignedNumbers s) = 100 - length (numberPool s) \<and>
         length (numberPool s) \<le> 100 \<and>
         set (numberPool s) = {1 .. 100} - set (assignedNumbers s)"
proof -
  have i: "raffle_inv s" using assms by (rule reachable_inv)
  have d: "distinct (assignedNumbers s)" using i by (simp add: raffle_inv_def)
  have r: "\<forall>n \<in> set (assignedNumbers s). 1 \<le> n \<and> n \<le> 100"
    using i by (auto simp: raffle_inv_def MAX_NUMBER_def)
  have m: "map (\<lambda>a. number (participants s a)) (participantAddresses s) = assignedNumbers s"
    using i by (simp add: raffle_inv_def)
  have "{a. exists (participants s a)} = set (participantAddresses s)"
    using inv_exists [OF i] by blast
  moreover have "distinct (participantAddresses s)" using i by (simp add: raffle_inv_def)
  ultimately have c: "card {a. exists (participants s a)} = length (participantAddresses s)"
    by (simp add: distinct_card)
  have l: "length (assignedNumbers s) = length (participantAddresses s)"
    by (rule inv_lengths [OF i])
  have p: "length (assignedNumbers s) + length (numberPool s) = 100"
    using pool_length [OF i] by (simp add: MAX_NUMBER_def)
  have "\<And>n. numberAssigned s n \<longleftrightarrow> n \<in> set (assignedNumbers s)"
    using i by (simp add: raffle_inv_def)
  then have q: "set (numberPool s) = {1 .. 100} - set (assignedNumbers s)"
    by (auto simp: pool_set MAX_NUMBER_def)
  show ?thesis using d r m c l p q by simp
qed

theorem assigned_numbers_invariant_witness:
  "reachable (house 3) \<and> length (participantAddresses (house 3)) = 3 \<and>
   distinct (assignedNumbers (house 3)) \<and>
   set (assignedNumbers (house 3)) \<subseteq> {1 .. 100} \<and>
   length (assignedNumbers (house 3)) = 3 \<and>
   card {a. exists (participants (house 3) a)} = 3 \<and>
   length (numberPool (house 3)) = 97"
proof -
  have r: "reachable (house 3)" by (rule house_reachable)
  have l: "length (participantAddresses (house 3)) = 3"
    using house_lists [of 3] by simp
  note t = assigned_numbers_invariant [OF r]
  from t l have a: "length (assignedNumbers (house 3)) = 3" by simp
  from t have "length (assignedNumbers (house 3)) = 100 - length (numberPool (house 3))"
    and "length (numberPool (house 3)) \<le> 100" by simp_all
  with a have p: "length (numberPool (house 3)) = 97" by arith
  from t have s: "set (assignedNumbers (house 3)) \<subseteq> {1 .. 100}" by auto
  show ?thesis using r l t a p s by simp
qed

text \<open>
  Claim C2, as stated, fails: once every participant has won, a \<^verbatim>\<open>drawWinner\<close> call by an
  identity other than the operator fails with \<open>Unauthorized\<close>, not with
  \<open>NoEligibleParticipants\<close>. Here the only participant, address 1, has won and calls.
\<close>

theorem exhausted_draw_by_outsider_counterexample:
  "reachable drawnOut \<and>
   set (participantAddresses drawnOut) \<subseteq> set (winnerAddresses drawnOut) \<and>
   drawWinner demoHash (callBy 1) drawnOut = Inl Unauthorized \<and>
   drawWinner demoHash (callBy 1) drawnOut \<noteq> Inl NoEligibleParticipants"
proof -
  have "msg_sender (callBy 1) \<noteq> admin drawnOut"
    by (simp add: drawnOut_lists callBy_def)
  then have "drawWinner demoHash (callBy 1) drawnOut = Inl Unauthorized"
    by (rule drawWinner_unauthorized)
  then show ?thesis by (simp add: drawnOut_lists)
qed

text \<open>
  Claim C2, amended. In every reachable state a \<^verbatim>\<open>drawWinner\<close> call that succeeds selects an
  identity that is not in the winner sequence, so the sequence has no identity twice, before
  the call and after it, in either of its arrays; and once every participant has won, every
  further \<^verbatim>\<open>drawWinner\<close> call fails: with \<open>NoEligibleParticipants\<close> when the operator calls,
  with \<open>Unauthorized\<close> when anyone else does.
\<close>

theorem winners_never_repeat:
  assumes "reachable s"
  shows "(drawWinner K e s = Inr (w, ev, s') \<longrightarrow>
            winnerAddress w \<notin> set (winnerAddresses s) \<and>
            winnerAddress w \<notin> winnerAddress ` set (winners s) \<and>
            distinct (winnerAddresses s') \<and> distinct (map winnerAddress (winners s'))) \<and>
         distinct (winnerAddresses s) \<and>
         distinct (map winnerAddress (winners s)) \<and>
         (set (participantAddresses s) \<subseteq> set (winnerAddresses s) \<longrightarrow>
            drawWinner K e s =
              Inl (if msg_sender e = admin s then NoEligibleParticipants else Unauthorized))"
proof -
  have i: "raffle_inv s" using assms by (rule reachable_inv)
  have d: "distinct (winnerAddresses s)" and m: "map winnerAddress (winners s) = winnerAddresses s"
    using i by (simp_all add: raffle_inv_def)
  have fresh: "winnerAddress w \<notin> set (winnerAddresses s) \<and>
            winnerAddress w \<notin> winnerAddress ` set (winners s) \<and>
            distinct (winnerAddresses s') \<and> distinct (map winnerAddress (winners s'))"
    if ok: "drawWinner K e s = Inr (w, ev, s')"
  proof -
    note k = drawWinner_success [OF ok]
    have "winnerAddress w = eligible s ! drawIndex K e s" using k(3) by simp
    then have n: "winnerAddress w \<notin> set (winnerAddresses s)"
      using eligible_nth [OF drawIndex_less [OF k(2)], of K e] by simp
    have "winnerAddress ` set (winners s) = set (winnerAddresses s)"
      using m by (metis set_map)
    moreover have "raffle_inv s'" by (rule inv_drawWinner [OF i ok])
    then have "distinct (winnerAddresses s')" "map winnerAddress (winners s') = winnerAddresses s'"
      by (simp_all add: raffle_inv_def)
    ultimately show ?thesis using n by simp
  qed
  have spent: "drawWinner K e s =
      Inl (if msg_sender e = admin s then NoEligibleParticipants else Unauthorized)"
    if "set (participantAddresses s) \<subseteq> set (winnerAddresses s)"
  proof (cases "msg_sender e = admin s")
    case True
    then show ?thesis using that
      by (simp add: drawWinner_exhausted all_won_no_eligible)
  next
    case False
    then show ?thesis by (simp add: drawWinner_unauthorized)
  qed
  show ?thesis using fresh d m spent by simp
qed

theorem winners_never_repeat_witness:
  "reachable (house 3) \<and>
   drawWinner demoHash (callBy 1000) (house 3) =
     Inr (secondGuest,
          WinnerDrawn 2 (name (participants (house 3) 2)) (number (participants (house 3) 2)),
          afterDraw) \<and>
   winnerAddress secondGuest \<notin> set (winnerAddresses (house 3)) \<and>
   distinct (winnerAddresses afterDraw) \<and>
   reachable drawnOut \<and>
   set (participantAddresses drawnOut) \<subseteq> set (winnerAddresses drawnOut) \<and>
   drawWinner demoHash (callBy 1000) drawnOut = Inl NoEligibleParticipants \<and>
   drawWinner demoHash (callBy 1) drawnOut = Inl Unauthorized"
proof -
  have r: "reachable (house 3)" by (rule house_reachable)
  have q: "reachable drawnOut" by (rule drawnOut_lists)
  have a: "set (participantAddresses drawnOut) \<subseteq> set (winnerAddresses drawnOut)"
    by (simp add: drawnOut_lists)
  note t = winners_never_repeat [OF r, of demoHash "callBy 1000" secondGuest
      "WinnerDrawn 2 (name (participants (house 3) 2)) (number (participants (house 3) 2))" afterDraw]
  have b: "winnerAddress secondGuest \<notin> set (winnerAddresses (house 3)) \<and>
           distinct (winnerAddresses afterDraw)"
    using t house3_draw by blast
  have c: "drawWinner demoHash (callBy 1000) drawnOut = Inl NoEligibleParticipants"
    using winners_never_repeat [OF q, of demoHash "callBy 1000"] a
    by (simp add: drawnOut_lists callBy_def)
  have d: "drawWinner demoHash (callBy 1) drawnOut = Inl Unauthorized"
    using winners_never_repeat [OF q, of demoHash "callBy 1"] a
    by (simp add: drawnOut_lists callBy_def)
  show ?thesis using r q a b c d house3_draw by blast
qed

text \<open>
  Claim C3. When the caller is the operator and some participant is eligible,
  \<^verbatim>\<open>drawWinner\<close> counts the eligible participants, reduces the hash modulo that count to an
  index below it, and selects the eligible participant at that index, the eligible ones
  being the participants in registration order without those in the winner sequence, counted
  from 0; it appends the identity, name and number of that record to the winner sequence,
  touches nothing else, and returns the record. When the caller is the operator and no
  participant is eligible, it fails with \<open>NoEligibleParticipants\<close>.
\<close>

theorem draw_selects_nth_eligible:
  assumes "msg_sender e = admin s"
  shows "(eligible s \<noteq> [] \<longrightarrow>
            countEligible (participantAddresses s) (winnerAddresses s) 0 = length (eligible s) \<and>
            drawIndex K e s < length (eligible s) \<and>
            locate (participantAddresses s) (winnerAddresses s) (drawIndex K e s) 0
              = Some (eligible s ! drawIndex K e s) \<and>
            drawWinner K e s =
              (let a = eligible s ! drawIndex K e s;
                   w = \<lparr>winnerAddress = a, winnerName = name (participants s a),
                        winnerNumber = number (participants s a)\<rparr>
               in Inr (w, WinnerDrawn a (name (participants s a)) (number (participants s a)),
                       s\<lparr>winnerAddresses := winnerAddresses s @ [a],
                         winners := winners s @ [w]\<rparr>))) \<and>
         (eligible s = [] \<longrightarrow> drawWinner K e s = Inl NoEligibleParticipants)"
proof (cases "eligible s = []")
  case True
  then show ?thesis using assms by (simp add: drawWinner_exhausted)
next
  case False
  have "drawIndex K e s < length (eligible s)" by (rule drawIndex_less [OF False])
  then show ?thesis
    using False drawWinner_selects [OF assms False, of K]
    by (simp add: countEligible_eligible locate_eligible)
qed

theorem draw_selects_nth_eligible_witness:
  "msg_sender (callBy 1000) = admin (house 3) \<and> eligible (house 3) = [1, 2, 3] \<and>
   drawIndex demoHash (callBy 1000) (house 3) = 1 \<and>
   drawWinner demoHash (callBy 1000) (house 3) =
     Inr (secondGuest,
          WinnerDrawn 2 (name (participants (house 3) 2)) (number (participants (house 3) 2)),
          afterDraw) \<and>
   msg_sender (callBy 1000) = admin drawnOut \<and> eligible drawnOut = [] \<and>
   drawWinner demoHash (callBy 1000) drawnOut = Inl NoEligibleParticipants"
proof -
  have a: "msg_sender (callBy 1000) = admin (house 3)" by (simp add: house3 callBy_def)
  have b: "msg_sender (callBy 1000) = admin drawnOut" by (simp add: drawnOut_lists callBy_def)
  have e: "eligible drawnOut = []" by (simp add: eligible_def drawnOut_lists)
  have "drawWinner demoHash (callBy 1000) drawnOut = Inl NoEligibleParticipants"
    using draw_selects_nth_eligible [OF b, of demoHash] e by simp
  moreover have "drawWinner demoHash (callBy 1000) (house 3) =
     Inr (secondGuest,
          WinnerDrawn 2 (name (participants (house 3) 2)) (number (participants (house 3) 2)),
          afterDraw)"
    using draw_selects_nth_eligible [OF a, of demoHash]
    by (simp add: house3 house3_winners secondGuest_def afterDraw_def Let_def)
  ultimately show ?thesis using a b e by (simp add: house3)
qed

text \<open>
  Claim C4, as stated, fails where its two conditions meet: with all 100 numbers assigned,
  \<^verbatim>\<open>enterRaffle\<close> called by an identity that is registered fails with \<open>AlreadyRegistered\<close>,
  not with \<open>PoolExhausted\<close>. Here the addresses 1 to 100 have registered and address 1 calls.
\<close>

theorem full_pool_registered_caller_counterexample:
  "reachable (house 100) \<and> numberPool (house 100) = [] \<and>
   length (assignedNumbers (house 100)) = 100 \<and>
   exists (participants (house 100) (msg_sender (callBy 1))) \<and>
   enterRaffle demoHash (callBy 1) ''again'' (house 100) = Inl AlreadyRegistered \<and>
   enterRaffle demoHash (callBy 1) ''again'' (house 100) \<noteq> Inl PoolExhausted"
proof -
  have r: "reachable (house 100)" by (rule house_reachable)
  have l: "length (assignedNumbers (house 100)) = 100"
    using inv_lengths [OF reachable_inv [OF r]] house_full by simp
  have x: "exists (participants (house 100) (msg_sender (callBy 1)))"
    by (simp add: house_exists callBy_def)
  then have "enterRaffle demoHash (callBy 1) ''again'' (house 100) = Inl AlreadyRegistered"
    by (simp add: enterRaffle_def)
  then show ?thesis using r l x house_full_pool by simp
qed

text \<open>
  Claim C4, amended. In every reachable state \<^verbatim>\<open>enterRaffle\<close> fails with \<open>AlreadyRegistered\<close>
  whenever the caller has a participant record; it fails with \<open>PoolExhausted\<close> whenever the
  caller has none and all 100 numbers are assigned, which is when the pool is empty and
  when 100 registrations have succeeded since the last reset; and in either case the
  transaction leaves the storage exactly as it was.
\<close>

theorem enter_rejections:
  assumes "reachable s"
  shows "(exists (participants s (msg_sender e)) \<longrightarrow>
            enterRaffle K e nm s = Inl AlreadyRegistered \<and>
            transact K e (EnterRaffle nm) s = s) \<and>
         (\<not> exists (participants s (msg_sender e)) \<and> numberPool s = [] \<longrightarrow>
            enterRaffle K e nm s = Inl PoolExhausted \<and>
            transact K e (EnterRaffle nm) s = s) \<and>
         (numberPool s = []) = (length (assignedNumbers s) = 100) \<and>
         (numberPool s = []) = (length (participantAddresses s) = 100)"
proof -
  have i: "raffle_inv s" using assms by (rule reachable_inv)
  have p: "(numberPool s = []) = (length (assignedNumbers s) = 100)"
    using pool_empty_iff [OF i] by (simp add: MAX_NUMBER_def)
  have q: "(numberPool s = []) = (length (participantAddresses s) = 100)"
    using p inv_lengths [OF i] by simp
  have a: "enterRaffle K e nm s = Inl AlreadyRegistered"
    if "exists (participants s (msg_sender e))"
    using that by (simp add: enterRaffle_def)
  have b: "enterRaffle K e nm s = Inl PoolExhausted"
    if "\<not> exists (participants s (msg_sender e))" and "numberPool s = []"
    using that p by (simp add: enterRaffle_def MAX_NUMBER_def)
  show ?thesis using a b p q by simp
qed

theorem enter_rejections_witness:
  "reachable (house 100) \<and> numberPool (house 100) = [] \<and>
   exists (participants (house 100) (msg_sender (callBy 1))) \<and>
   enterRaffle demoHash (callBy 1) ''again'' (house 100) = Inl AlreadyRegistered \<and>
   transact demoHash (callBy 1) (EnterRaffle ''again'') (house 100) = house 100 \<and>
   \<not> exists (participants (house 100) (msg_sender (callBy 500))) \<and>
   enterRaffle demoHash (callBy 500) ''late'' (house 100) = Inl PoolExhausted \<and>
   transact demoHash (callBy 500) (EnterRaffle ''late'') (house 100) = house 100"
proof -
  have r: "reachable (house 100)" by (rule house_reachable)
  have x: "exists (participants (house 100) (msg_sender (callBy 1)))"
    by (simp add: house_exists callBy_def)
  have y: "\<not> exists (participants (house 100) (msg_sender (callBy 500)))"
    by (simp add: house_exists callBy_def)
  have a: "enterRaffle demoHash (callBy 1) ''again'' (house 100) = Inl AlreadyRegistered \<and>
           transact demoHash (callBy 1) (EnterRaffle ''again'') (house 100) = house 100"
    using enter_rejections [OF r, of "callBy 1" demoHash "''again''"] x by blast
  have b: "enterRaffle demoHash (callBy 500) ''late'' (house 100) = Inl PoolExhausted \<and>
           transact demoHash (callBy 500) (EnterRaffle ''late'') (house 100) = house 100"
    using enter_rejections [OF r, of "callBy 500" demoHash "''late''"] y house_full_pool by blast
  show ?thesis using r x y a b house_full_pool by blast
qed

text \<open>
  Claim C5. In every reachable state, \<^verbatim>\<open>resetLottery\<close> called by the operator succeeds and
  leaves a state with no participant record (every record is the zero record), an empty
  participant list, empty winner arrays, no assigned number, no assignment marker, the
  whole range 1 to 100 as the pool, and the operator it had before.
\<close>

theorem reset_clears_everything:
  assumes "reachable s" and "msg_sender e = admin s"
  shows "\<exists>s'. resetLottery e s = Inr (LotteryReset (block_timestamp e), s') \<and>
           transact K e ResetLottery s = s' \<and>
           (\<forall>a. participants s' a = zeroParticipant) \<and>
           (\<forall>a. \<not> exists (participants s' a)) \<and>
           participantAddresses s' = [] \<and>
           winnerAddresses s' = [] \<and> winners s' = [] \<and>
           assignedNumbers s' = [] \<and>
           (\<forall>n. \<not> numberAssigned s' n) \<and>
           numberPool s' = [1 ..< 101] \<and>
           admin s' = admin s"
proof -
  have i: "raffle_inv s" using assms(1) by (rule reachable_inv)
  have r: "resetLottery e s = Inr (LotteryReset (block_timestamp e), constructor (admin s))"
    by (rule resetLottery_inv [OF i assms(2)])
  have "numberPool (constructor (admin s)) = [1 ..< 101]"
    by (simp add: numberPool_def constructor_def MAX_NUMBER_def)
  then show ?thesis using r
    by (simp add: constructor_def zeroParticipant_def)
qed

theorem reset_clears_everything_witness:
  "reachable (house 3) \<and> msg_sender (callBy 1000) = admin (house 3) \<and>
   participantAddresses (house 3) \<noteq> [] \<and>
   participantAddresses (transact demoHash (callBy 1000) ResetLottery (house 3)) = [] \<and>
   numberPool (transact demoHash (callBy 1000) ResetLottery (house 3)) = [1 ..< 101] \<and>
   admin (transact demoHash (callBy 1000) ResetLottery (house 3)) = 1000"
proof -
  have r: "reachable (house 3)" by (rule house_reachable)
  have a: "msg_sender (callBy 1000) = admin (house 3)"
    using house_lists [of 3] by (simp add: callBy_def)
  have n: "participantAddresses (house 3) \<noteq> []" "admin (house 3) = 1000"
    using house_lists [of 3] by simp_all
  show ?thesis using r a n reset_clears_everything [OF r a, of demoHash] by auto
qed

text \<open>
  Claim C6. In every reachable state, a second \<^verbatim>\<open>resetLottery\<close> by the operator, right after
  a first, leaves exactly the state the first left; so does any number of further resets;
  and the operator is the same after any number of resets.
\<close>

theorem reset_idempotent:
  assumes "reachable s" and "msg_sender e1 = admin s" and "msg_sender e2 = admin s"
  shows "transact K e2 ResetLottery (transact K e1 ResetLottery s) = transact K e1 ResetLottery s \<and>
         admin (transact K e1 ResetLottery s) = admin s \<and>
         run K (replicate (Suc n) (e1, ResetLottery)) s = transact K e1 ResetLottery s \<and>
         admin (run K (replicate n (e1, ResetLottery)) s) = admin s"
proof -
  let ?c = "constructor (admin s)"
  have one: "transact K e1 ResetLottery s = ?c"
    by (rule reset_operator [OF assms(1,2)])
  have adm: "admin ?c = admin s" by (simp add: constructor_def)
  have again: "transact K e ResetLottery ?c = ?c" if "msg_sender e = admin s" for e
    using reset_operator [OF reachable.init, of e "admin s" K] that adm by simp
  have rep: "run K (replicate m (e1, ResetLottery)) ?c = ?c" for m
    by (induction m) (simp_all add: again [OF assms(2)] del: transact.simps)
  have many: "run K (replicate (Suc m) (e1, ResetLottery)) s = ?c" for m
    by (simp add: one rep del: transact.simps)
  have "admin (run K (replicate n (e1, ResetLottery)) s) = admin s"
  proof (cases n)
    case 0
    then show ?thesis by simp
  next
    case (Suc m)
    show ?thesis unfolding Suc many [of m] by (rule adm)
  qed
  then show ?thesis using one adm again [OF assms(3)] many [of n]
    by (simp del: transact.simps run.simps replicate.simps)
qed

theorem reset_idempotent_witness:
  "reachable (house 3) \<and> msg_sender (callBy 1000) = admin (house 3) \<and>
   transact demoHash (callBy 1000) ResetLottery (transact demoHash (callBy 1000) ResetLottery (house 3))
     = transact demoHash (callBy 1000) ResetLottery (house 3) \<and>
   participantAddresses (transact demoHash (callBy 1000) ResetLottery (house 3))
     \<noteq> participantAddresses (house 3) \<and>
   admin (run demoHash (replicate 5 (callBy 1000, ResetLottery)) (house 3)) = 1000"
proof -
  have r: "reachable (house 3)" by (rule house_reachable)
  have a: "msg_sender (callBy 1000) = admin (house 3)" by (simp add: house3 callBy_def)
  have "participantAddresses (transact demoHash (callBy 1000) ResetLottery (house 3)) = []"
    unfolding reset_operator [OF r a] by (simp add: constructor_def)
  then have d: "participantAddresses (transact demoHash (callBy 1000) ResetLottery (house 3))
     \<noteq> participantAddresses (house 3)" by (simp add: house3)
  show ?thesis using r a d reset_idempotent [OF r a a, of demoHash 5]
    by (simp add: house3 del: transact.simps run.simps replicate.simps)
qed

text \<open>
  Claim C7. In every reachable state, a call of \<^verbatim>\<open>drawWinner\<close> or of \<^verbatim>\<open>resetLottery\<close> by an
  identity that is not the operator fails with \<open>Unauthorized\<close>, and the transaction leaves
  the storage exactly as it was.
\<close>

theorem non_operator_rejected:
  assumes "reachable s" and "msg_sender e \<noteq> admin s"
  shows "drawWinner K e s = Inl Unauthorized \<and> resetLottery e s = Inl Unauthorized \<and>
         transact K e DrawWinner s = s \<and> transact K e ResetLottery s = s"
  using assms(2) by (simp add: drawWinner_unauthorized resetLottery_unauthorized)

theorem non_operator_rejected_witness:
  "reachable (house 3) \<and> msg_sender (callBy 2) \<noteq> admin (house 3) \<and>
   drawWinner demoHash (callBy 2) (house 3) = Inl Unauthorized \<and>
   resetLottery (callBy 2) (house 3) = Inl Unauthorized \<and>
   transact demoHash (callBy 2) DrawWinner (house 3) = house 3 \<and>
   transact demoHash (callBy 2) ResetLottery (house 3) = house 3"
proof -
  have r: "reachable (house 3)" by (rule house_reachable)
  have a: "msg_sender (callBy 2) \<noteq> admin (house 3)"
    using house_lists [of 3] by (simp add: callBy_def)
  show ?thesis using r a non_operator_rejected [OF r a, of demoHash] by simp
qed

text \<open>
  Claim C8. A call of \<^verbatim>\<open>drawWinner\<close> that succeeds appends the returned record to the winner
  sequence, which grows by one in both of its arrays, and changes nothing else: the
  participant records, the participant list, the assigned numbers, the markers, the pool and
  the operator are those of the state before.
\<close>

theorem draw_changes_only_winners:
  assumes "drawWinner K e s = Inr (w, ev, s')"
  shows "winners s' = winners s @ [w] \<and>
         length (winners s') = length (winners s) + 1 \<and>
         winnerAddresses s' = winnerAddresses s @ [winnerAddress w] \<and>
         participants s' = participants s \<and>
         participantAddresses s' = participantAddresses s \<and>
         assignedNumbers s' = assignedNumbers s \<and>
         numberAssigned s' = numberAssigned s \<and>
         numberPool s' = numberPool s \<and>
         admin s' = admin s \<and>
         s' = s\<lparr>winnerAddresses := winnerAddresses s @ [winnerAddress w],
                winners := winners s @ [w]\<rparr>"
proof -
  have s': "s' = s\<lparr>winnerAddresses := winnerAddresses s @ [winnerAddress w],
                    winners := winners s @ [w]\<rparr>"
    by (rule drawWinner_success(4) [OF assms])
  have "numberPool s' = numberPool s" unfolding s' by (simp add: numberPool_def)
  moreover have "winners s' = winners s @ [w]" unfolding s' by simp
  moreover have "winnerAddresses s' = winnerAddresses s @ [winnerAddress w]" unfolding s' by simp
  moreover have "participants s' = participants s" "participantAddresses s' = participantAddresses s"
    "assignedNumbers s' = assignedNumbers s" "numberAssigned s' = numberAssigned s"
    "admin s' = admin s" unfolding s' by simp_all
  ultimately show ?thesis using s' by simp
qed

theorem draw_changes_only_winners_witness:
  "drawWinner demoHash (callBy 1000) (house 3) =
     Inr (secondGuest,
          WinnerDrawn 2 (name (participants (house 3) 2)) (number (participants (house 3) 2)),
          afterDraw) \<and>
   winners afterDraw = winners (house 3) @ [secondGuest] \<and>
   winnerAddresses afterDraw = [2] \<and>
   participants afterDraw = participants (house 3) \<and>
   participantAddresses afterDraw = [1, 2, 3] \<and>
   assignedNumbers afterDraw = assignedNumbers (house 3) \<and>
   numberAssigned afterDraw = numberAssigned (house 3) \<and>
   admin afterDraw = 1000"
  using draw_changes_only_winners [OF house3_draw] house3_draw
  by (simp add: house3 secondGuest_def)

text \<open>
  Claim C9. In every reachable state \<^verbatim>\<open>getParticipantInfo\<close>, which has no failing path, returns
  the empty name, the number 0 and the flag false for an identity without a participant
  record, which is an identity not in the participant list; for a registered identity it
  returns the name in its record, the number assigned to it (the entry of
  \<^verbatim>\<open>assignedNumbers\<close> at its place in the participant list) and the flag true. The name in the
  record is the one given at registration: after a registration that succeeds, the caller's
  info is the name passed, the number just assigned, and true.
\<close>

theorem participant_info:
  assumes "reachable s"
  shows "(\<not> exists (participants s a) \<longrightarrow> getParticipantInfo s a = ([], 0, False)) \<and>
         (a \<notin> set (participantAddresses s) \<longrightarrow> \<not> exists (participants s a)) \<and>
         (exists (participants s a) \<longrightarrow>
            (\<exists>i < length (participantAddresses s).
               participantAddresses s ! i = a \<and>
               getParticipantInfo s a = (name (participants s a), assignedNumbers s ! i, True))) \<and>
         (enterRaffle K e nm s = Inr (ev, s') \<longrightarrow>
            ev = ParticipantEntered (msg_sender e) nm (last (assignedNumbers s')) \<and>
            getParticipantInfo s' (msg_sender e) = (nm, last (assignedNumbers s'), True))"
proof -
  have i: "raffle_inv s" using assms by (rule reachable_inv)
  have z: "getParticipantInfo s a = ([], 0, False)" if "\<not> exists (participants s a)"
  proof -
    have "a \<notin> set (participantAddresses s)" using that by (simp add: inv_exists [OF i])
    then have "participants s a = zeroParticipant" using i unfolding raffle_inv_def by blast
    then show ?thesis by (simp add: getParticipantInfo_def zeroParticipant_def Let_def)
  qed
  have r: "\<exists>i < length (participantAddresses s).
               participantAddresses s ! i = a \<and>
               getParticipantInfo s a = (name (participants s a), assignedNumbers s ! i, True)"
    if ex: "exists (participants s a)"
  proof -
    have "a \<in> set (participantAddresses s)" using ex by (simp add: inv_exists [OF i])
    then obtain k where k: "k < length (participantAddresses s)" "participantAddresses s ! k = a"
      by (auto simp: in_set_conv_nth)
    have "map (\<lambda>a. number (participants s a)) (participantAddresses s) = assignedNumbers s"
      using i by (simp add: raffle_inv_def)
    then have "assignedNumbers s ! k = number (participants s (participantAddresses s ! k))"
      using k(1) by (metis nth_map)
    then have "getParticipantInfo s a = (name (participants s a), assignedNumbers s ! k, True)"
      using ex k(2) by (simp add: getParticipantInfo_def Let_def)
    then show ?thesis using k by blast
  qed
  have n: "ev = ParticipantEntered (msg_sender e) nm (last (assignedNumbers s')) \<and>
           getParticipantInfo s' (msg_sender e) = (nm, last (assignedNumbers s'), True)"
    if ok: "enterRaffle K e nm s = Inr (ev, s')"
  proof -
    from ok have ne: "\<not> exists (participants s (msg_sender e))"
      and lt: "length (assignedNumbers s) < MAX_NUMBER"
      by (auto simp: enterRaffle_def split: if_splits)
    show ?thesis
      using ok unfolding enterRaffle_succeeds [OF i ne lt]
      by (auto simp: Let_def getParticipantInfo_def)
  qed
  show ?thesis using z r n by (simp add: inv_exists [OF i])
qed

theorem participant_info_witness:
  "reachable (house 3) \<and> \<not> exists (participants (house 3) 7) \<and>
   getParticipantInfo (house 3) 7 = ([], 0, False) \<and>
   exists (participants (house 3) 2) \<and>
   snd (snd (getParticipantInfo (house 3) 2)) = True \<and>
   fst (snd (getParticipantInfo (house 3) 2)) \<in> set (assignedNumbers (house 3)) \<and>
   enterRaffle demoHash (callBy 4) ''dora'' (house 3) =
     Inr (ParticipantEntered 4 ''dora''
            (last (assignedNumbers (transact demoHash (callBy 4) (EnterRaffle ''dora'') (house 3)))),
          transact demoHash (callBy 4) (EnterRaffle ''dora'') (house 3)) \<and>
   getParticipantInfo (transact demoHash (callBy 4) (EnterRaffle ''dora'') (house 3)) 4 =
     (''dora'',
      last (assignedNumbers (transact demoHash (callBy 4) (EnterRaffle ''dora'') (house 3))), True)"
proof -
  let ?s = "house 3"
  let ?s' = "transact demoHash (callBy 4) (EnterRaffle ''dora'') (house 3)"
  have r: "reachable ?s" by (rule house_reachable)
  have i: "raffle_inv ?s" by (rule reachable_inv [OF r])
  have n7: "\<not> exists (participants ?s 7)" by (simp add: house_exists)
  have y2: "exists (participants ?s 2)" by (simp add: house_exists)
  have n4: "\<not> exists (participants ?s (msg_sender (callBy 4)))"
    by (simp add: house_exists callBy_def)
  have lt: "length (assignedNumbers ?s) < MAX_NUMBER"
    using inv_lengths [OF i] by (simp add: house3 MAX_NUMBER_def)
  have ok: "enterRaffle demoHash (callBy 4) ''dora'' ?s =
     Inr (ParticipantEntered 4 ''dora'' (last (assignedNumbers ?s')), ?s')"
    unfolding transact.simps enterRaffle_succeeds [OF i n4 lt, of demoHash "''dora''"]
    by (simp add: Let_def callBy_def)
  note t7 = participant_info [OF r, of 7]
  note t2 = participant_info [OF r, of 2 demoHash "callBy 4" "''dora''"
      "ParticipantEntered 4 ''dora'' (last (assignedNumbers ?s'))" ?s']
  have a: "getParticipantInfo ?s 7 = ([], 0, False)" using t7 n7 by blast
  from t2 y2 obtain k where k: "k < length (participantAddresses ?s)"
    "getParticipantInfo ?s 2 = (name (participants ?s 2), assignedNumbers ?s ! k, True)"
    by blast
  have "k < length (assignedNumbers ?s)" using k(1) inv_lengths [OF i] by simp
  then have b: "snd (snd (getParticipantInfo ?s 2)) = True \<and>
                fst (snd (getParticipantInfo ?s 2)) \<in> set (assignedNumbers ?s)"
    by (simp add: k(2))
  have c: "getParticipantInfo ?s' 4 = (''dora'', last (assignedNumbers ?s'), True)"
    using t2 ok by (simp add: callBy_def)
  show ?thesis using r n7 a y2 b ok c by blast
qed

text \<open>
  Claim C10. In every reachable state in which the first pass of \<^verbatim>\<open>drawWinner\<close> counts at
  least one eligible participant, any hash reduced modulo the count is below the number of
  eligible entries, so the second pass breaks at a participant that is not yet a winner and
  never runs to its end with the zero address; that participant has a record that exists.
  In particular the winner of every successful draw is the address the second pass breaks
  at, and has such a record.
\<close>

theorem locate_always_selects:
  assumes "reachable s"
    and "0 < countEligible (participantAddresses s) (winnerAddresses s) 0"
  shows "h mod countEligible (participantAddresses s) (winnerAddresses s) 0 < length (eligible s) \<and>
         (\<exists>a. locate (participantAddresses s) (winnerAddresses s)
                 (h mod countEligible (participantAddresses s) (winnerAddresses s) 0) 0 = Some a \<and>
               a \<in> set (participantAddresses s) \<and> a \<notin> set (winnerAddresses s) \<and>
               exists (participants s a)) \<and>
         (drawWinner K e s = Inr (w, ev, s') \<longrightarrow>
            locate (participantAddresses s) (winnerAddresses s)
              (K [U256 (block_timestamp e), U256 (block_prevrandao e), Addr (msg_sender e)]
               mod countEligible (participantAddresses s) (winnerAddresses s) 0) 0
              = Some (winnerAddress w) \<and>
            exists (participants s (winnerAddress w)))"
proof -
  let ?n = "countEligible (participantAddresses s) (winnerAddresses s) 0"
  have n: "?n = length (eligible s)" by (rule countEligible_eligible)
  have i: "raffle_inv s" using assms(1) by (rule reachable_inv)
  have lt: "r mod ?n < length (eligible s)" for r using assms(2) n by simp
  have sel: "locate (participantAddresses s) (winnerAddresses s) (r mod ?n) 0
               = Some (eligible s ! (r mod ?n))" for r
    by (rule locate_eligible [OF lt])
  have mem: "eligible s ! (r mod ?n) \<in> set (participantAddresses s) \<and>
             eligible s ! (r mod ?n) \<notin> set (winnerAddresses s)" for r
    by (rule eligible_nth [OF lt])
  have ex: "exists (participants s (eligible s ! (r mod ?n)))" for r
    using mem [of r] by (simp add: inv_exists [OF i])
  have "locate (participantAddresses s) (winnerAddresses s)
              (K [U256 (block_timestamp e), U256 (block_prevrandao e), Addr (msg_sender e)]
               mod ?n) 0 = Some (winnerAddress w) \<and> exists (participants s (winnerAddress w))"
    if ok: "drawWinner K e s = Inr (w, ev, s')"
  proof -
    have "winnerAddress w = eligible s ! drawIndex K e s"
      using drawWinner_success(3) [OF ok] by simp
    then have "winnerAddress w = eligible s !
        (K [U256 (block_timestamp e), U256 (block_prevrandao e), Addr (msg_sender e)] mod ?n)"
      by (simp add: drawIndex_def n)
    then show ?thesis using sel ex by simp
  qed
  then show ?thesis using lt [of h] sel [of h] mem [of h] ex [of h] by simp
qed

theorem locate_always_selects_witness:
  "reachable (house 3) \<and>
   countEligible (participantAddresses (house 3)) (winnerAddresses (house 3)) 0 = 3 \<and>
   locate (participantAddresses (house 3)) (winnerAddresses (house 3)) (7 mod 3) 0 = Some 2 \<and>
   exists (participants (house 3) 2)"
proof -
  have r: "reachable (house 3)" by (rule house_reachable)
  have c: "countEligible (participantAddresses (house 3)) (winnerAddresses (house 3)) 0 = 3"
    by (simp add: countEligible_eligible house3)
  then have p: "0 < countEligible (participantAddresses (house 3)) (winnerAddresses (house 3)) 0"
    by simp
  note t = locate_always_selects [OF r p, of 7 demoHash "callBy 1000" secondGuest
      "WinnerDrawn 2 (name (participants (house 3) 2)) (number (participants (house 3) 2))" afterDraw]
  have "locate (participantAddresses (house 3)) (winnerAddresses (house 3)) (7 mod 3) 0
          = Some (winnerAddress secondGuest) \<and>
        exists (participants (house 3) (winnerAddress secondGuest))"
    using t house3_draw unfolding c by (simp add: demoHash_def)
  then show ?thesis using r c by (simp add: secondGuest_def)
qed

end
